theory Spec2Isabelle
  imports Main "HOL-Library.Multiset" "HOL-Library.Product_Lexorder"
begin

section \<open>Data model\<close>

text \<open>
  A JavaScript string is a sequence of UTF-16 code units, and \<open>String#length\<close> counts
  code units. The text of a serialization is therefore a list of code units; the
  ellipsis U+2026 is one unit.
\<close>

type_synonym code_unit = nat
type_synonym jsstring = "code_unit list"

definition ascii :: "string \<Rightarrow> jsstring" where
  "ascii cs = map of_char cs"

text \<open>
  A markup is the object \<open>{type, start, end, href}\<close>. The type identifiers of
  \<open>Serialize.types\<close> are numbers, \<open>start\<close> and \<open>end\<close> are integers (which the code
  never checks, so they may be negative or inverted), and \<open>href\<close> is present on
  links only: \<open>None\<close> stands for \<open>undefined\<close>.
\<close>

record markup =
  m_type :: int
  m_start :: int
  m_end :: int
  m_href :: "string option"

text \<open>A markup without \<open>href\<close>, as every markup that is not a link.\<close>

definition markup_of :: "int \<Rightarrow> int \<Rightarrow> int \<Rightarrow> markup" where
  "markup_of t a b = \<lparr>m_type = t, m_start = a, m_end = b, m_href = None\<rparr>"

text \<open>
  A serialization has the fields \<open>type\<close>, \<open>text\<close>, \<open>length\<close> and \<open>markups\<close>.
  \<open>length\<close> is a field of its own, written by the constructor and by the setter
  of \<open>text\<close> only.
\<close>

record serialization =
  s_type :: string
  s_text :: jsstring
  s_length :: nat
  s_markups :: "markup list"

text \<open>\<open>String#toLowerCase\<close> on a tag name, whose letters are ASCII.\<close>

definition toLowerCase :: "string \<Rightarrow> string" where
  "toLowerCase str =
     map (\<lambda>c. let n = (of_char c :: nat) in if 65 \<le> n \<and> n \<le> 90 then char_of (n + 32) else c) str"

text \<open>
  Modelled from the spec: the module \<open>./convert\<close>, which the constructor calls last, is
  not among the sources; on an element without children it leaves the text empty and
  adds no markup (the empty serialization of sections 4.5 and 6). The rest is the
  constructor applied to \<open>document.createElement(tag)\<close>, a new element without
  children, for a valid element name \<open>tag\<close>: \<open>length = 0\<close>, \<open>markups = []\<close>, and
  \<open>type = elem.nodeName.toLowerCase()\<close>, the tag name in lower case.
\<close>

definition new_Serialize :: "string \<Rightarrow> serialization" where
  "new_Serialize tag =
     \<lparr>s_type = toLowerCase tag, s_text = [], s_length = 0, s_markups = []\<rparr>"

text \<open>The setter of \<open>text\<close>: \<open>this.length = newText.length; text = newText\<close>.\<close>

definition set_text :: "serialization \<Rightarrow> jsstring \<Rightarrow> serialization" where
  "set_text this newText = this\<lparr>s_length := length newText, s_text := newText\<rparr>"

text \<open>\<open>Array#splice(i, n, items...)\<close> for an index \<open>i\<close> within the array.\<close>

definition array_splice :: "'a list \<Rightarrow> nat \<Rightarrow> nat \<Rightarrow> 'a list \<Rightarrow> 'a list" where
  "array_splice xs i n items = take i xs @ items @ drop (i + n) xs"

section \<open>addMarkup and addMarkups\<close>

text \<open>
  Each of the three loops of \<open>addMarkup\<close> has the shape
  \<open>while (this.markups[i] && cond(this.markups[i])) i += 1\<close>; \<open>this.markups[i]\<close> is
  \<open>undefined\<close>, hence falsy, exactly when \<open>i\<close> is past the end.
\<close>

function advance :: "(markup \<Rightarrow> bool) \<Rightarrow> markup list \<Rightarrow> nat \<Rightarrow> nat" where
  "advance cond markups i =
     (if i < length markups \<and> cond (markups ! i) then advance cond markups (i + 1) else i)"
  by pat_completeness auto
termination
  by (relation "measure (\<lambda>(cond, markups, i). length markups - i)") auto

declare advance.simps [simp del]

definition addMarkup :: "serialization \<Rightarrow> markup \<Rightarrow> serialization" where
  "addMarkup this toAdd =
     (let markups = s_markups this;
          i = advance (\<lambda>m. m_type toAdd > m_type m) markups 0;
          i = advance (\<lambda>m. m_type toAdd = m_type m \<and> m_start toAdd > m_start m) markups i;
          i = advance (\<lambda>m. m_type toAdd = m_type m \<and> m_start toAdd = m_start m \<and>
                            m_end toAdd > m_end m) markups i
      in this\<lparr>s_markups := array_splice markups i 0 [toAdd]\<rparr>)"

text \<open>\<open>addMarkups\<close> on an array: one \<open>addMarkup\<close> per element, in order.\<close>

definition addMarkups :: "serialization \<Rightarrow> markup list \<Rightarrow> serialization" where
  "addMarkups this toAdd = fold (\<lambda>m s. addMarkup s m) toAdd this"

text \<open>The order the documentation names: by type, then by start, then by end.\<close>

definition key :: "markup \<Rightarrow> int \<times> int \<times> int" where
  "key m = (m_type m, m_start m, m_end m)"

definition sorted_markups :: "markup list \<Rightarrow> bool" where
  "sorted_markups ms = sorted (map key ms)"

section \<open>removeMarkup\<close>

text \<open>
  The \<open>for\<close> loop of \<open>removeMarkup\<close>, with the array and the index as its state.
  \<open>break\<close> and \<open>return this\<close> both leave the loop with the array as it is then.
  After \<open>splice(i, 1); i -= 1\<close> the increment of the loop restores \<open>i\<close>.
\<close>

function removeMarkup_loop :: "markup list \<Rightarrow> markup \<Rightarrow> nat \<Rightarrow> markup list" where
  "removeMarkup_loop markups toRemove i =
     (if \<not> i < length markups then markups
      else
        let markup = markups ! i in
        if m_type markup > m_type toRemove then markups
        else if m_type markup \<noteq> m_type toRemove then removeMarkup_loop markups toRemove (i + 1)
        else if m_start markup \<le> m_start toRemove \<and> m_end markup \<ge> m_end toRemove then
          (let before = \<lparr>m_type = m_type markup, m_start = m_start markup,
                         m_end = m_start toRemove, m_href = m_href markup\<rparr>;
               after = \<lparr>m_type = m_type markup, m_start = m_end toRemove,
                        m_end = m_end markup, m_href = m_href markup\<rparr>
           in if m_start after \<noteq> m_end after \<and> m_start before \<noteq> m_end before
                then array_splice markups i 1 [before, after]
              else if m_start before \<noteq> m_end before then markups[i := before]
              else if m_start after \<noteq> m_end after then markups[i := after]
              else array_splice markups i 1 [])
        else
          (let markup1 = (if m_start markup \<ge> m_start toRemove \<and> m_start markup < m_end toRemove
                          then markup\<lparr>m_start := m_end toRemove\<rparr> else markup);
               markup2 = (if m_end markup1 > m_start toRemove \<and> m_end markup1 \<le> m_end toRemove
                          then markup1\<lparr>m_end := m_start toRemove\<rparr> else markup1);
               markups1 = markups[i := markup2]
           in if m_end markup2 \<le> m_start markup2
                then removeMarkup_loop (array_splice markups1 i 1 []) toRemove i
              else removeMarkup_loop markups1 toRemove (i + 1)))"
  by pat_completeness auto
termination
  by (relation "measure (\<lambda>(markups, toRemove, i). length markups - i)")
     (auto simp: array_splice_def)

declare removeMarkup_loop.simps [simp del]

definition removeMarkup :: "serialization \<Rightarrow> markup \<Rightarrow> serialization" where
  "removeMarkup this toRemove =
     this\<lparr>s_markups := removeMarkup_loop (s_markups this) toRemove 0\<rparr>"

text \<open>Two markups overlap when their half-open ranges share a position.\<close>

definition overlaps :: "markup \<Rightarrow> markup \<Rightarrow> bool" where
  "overlaps m t \<longleftrightarrow> max (m_start m) (m_start t) < min (m_end m) (m_end t)"


section \<open>substr\<close>

text \<open>
  \<open>String#substr(start, length)\<close> of the host, as ECMAScript defines it for integer
  arguments: a negative start counts from the end, the start is clamped to the string,
  and the length to what remains.
\<close>

definition js_substr :: "jsstring \<Rightarrow> int \<Rightarrow> int \<Rightarrow> jsstring" where
  "js_substr str start len =
     (let size = int (length str);
          intStart = (if start < 0 then max (size + start) 0 else min start size);
          intLength = min (max len 0) size;
          intEnd = min (intStart + intLength) size
      in take (nat (intEnd - intStart)) (drop (nat intStart) str))"

text \<open>
  \<open>while (start < 0) start = this.length + start\<close>. The loop is reached only after
  \<open>if (!this.length ...) return substr\<close>, so \<open>this.length\<close> is positive there; the
  test \<open>0 < len\<close> records that and makes the recursion total.
\<close>

function resolveStart :: "nat \<Rightarrow> int \<Rightarrow> int" where
  "resolveStart len start =
     (if start < 0 \<and> 0 < len then resolveStart len (int len + start) else start)"
  by pat_completeness auto
termination
  by (relation "measure (\<lambda>(len, start). nat (- start))") auto

declare resolveStart.simps [simp del]

text \<open>The markup \<open>newMarkup\<close> that \<open>substr\<close> builds for a markup meeting the slice.\<close>

definition substr_newMarkup :: "int \<Rightarrow> int \<Rightarrow> markup \<Rightarrow> markup" where
  "substr_newMarkup start end' markup =
     \<lparr>m_type = m_type markup,
      m_start = (if m_start markup > start then m_start markup - start else 0),
      m_end = (if m_end markup < end' then m_end markup - start else end' - start),
      m_href = m_href markup\<rparr>"

text \<open>
  \<open>substr(start, length)\<close>; \<open>length = None\<close> is the call without a second argument
  (\<open>undefined <= 0\<close> is false in JavaScript).
\<close>

definition substr :: "serialization \<Rightarrow> int \<Rightarrow> int option \<Rightarrow> serialization" where
  "substr this start length' =
     (let substr0 = new_Serialize (s_type this) in
      if s_length this = 0 \<or> (case length' of None \<Rightarrow> False | Some l \<Rightarrow> l \<le> 0) then substr0
      else
        let start = resolveStart (s_length this) start;
            len = (case length' of
                     None \<Rightarrow> int (s_length this) - start
                   | Some l \<Rightarrow> if start + l > int (s_length this)
                              then int (s_length this) - start else l);
            end' = start + len;
            substr1 = set_text substr0 (js_substr (s_text this) start len)
        in fold (\<lambda>markup acc.
                   if m_start markup < end' \<and> m_end markup > start
                   then addMarkup acc (substr_newMarkup start end' markup)
                   else acc)
                (s_markups this) substr1)"

section \<open>mergeAdjacent\<close>

text \<open>
  Modelled from the spec: the module \<open>./adjacent\<close>, whose function
  \<open>Serialize#mergeAdjacent\<close> applies to the markups, is not among the sources. The
  specification describes one pass from left to right over the sorted list: a markup
  of the type of its predecessor with \<open>next.start <= previous.end\<close> is merged into it,
  the result spanning \<open>[min(start), max(end)]\<close> and keeping an \<open>href\<close> of either.
\<close>

fun mergeAdjacent_list :: "markup list \<Rightarrow> markup list" where
  "mergeAdjacent_list (previous # next # rest) =
     (if m_type next = m_type previous \<and> m_start next \<le> m_end previous
      then mergeAdjacent_list
             (\<lparr>m_type = m_type previous,
               m_start = min (m_start previous) (m_start next),
               m_end = max (m_end previous) (m_end next),
               m_href = (case m_href previous of None \<Rightarrow> m_href next | Some h \<Rightarrow> Some h)\<rparr>
              # rest)
      else previous # mergeAdjacent_list (next # rest))"
| "mergeAdjacent_list markups = markups"

definition mergeAdjacent :: "serialization \<Rightarrow> serialization" where
  "mergeAdjacent this = this\<lparr>s_markups := mergeAdjacent_list (s_markups this)\<rparr>"

section \<open>append and equals\<close>

text \<open>
  The argument of \<open>append\<close> is falsy (\<open>Absent\<close>; the empty string is falsy too),
  a string, or another serialization.
\<close>

datatype appended = Absent | Text jsstring | Other serialization

definition append_newMarkup :: "int \<Rightarrow> markup \<Rightarrow> markup" where
  "append_newMarkup offset markup =
     \<lparr>m_type = m_type markup, m_start = m_start markup + offset,
      m_end = m_end markup + offset, m_href = m_href markup\<rparr>"

text \<open>
  The branch of \<open>append\<close> for a serialization, up to but without its last statement
  \<open>serialization.mergeAdjacent()\<close>.
\<close>

definition append_unmerged :: "serialization \<Rightarrow> serialization \<Rightarrow> serialization" where
  "append_unmerged this other =
     (let serialization = set_text (new_Serialize (s_type this)) (s_text this @ s_text other);
          serialization = fold (\<lambda>markup acc. addMarkup acc (append_newMarkup 0 markup))
                               (s_markups this) serialization;
          serialization = fold (\<lambda>markup acc.
                                  addMarkup acc (append_newMarkup (int (s_length this)) markup))
                               (s_markups other) serialization
      in serialization)"

definition append :: "serialization \<Rightarrow> appended \<Rightarrow> serialization" where
  "append this toAdd =
     (case toAdd of
        Absent \<Rightarrow> substr this 0 None
      | Text str \<Rightarrow>
          if str = [] then substr this 0 None
          else
            let serialization = substr this 0 None;
                markups = map (\<lambda>markup.
                                 if m_end markup = int (s_length serialization)
                                 then markup\<lparr>m_end := m_end markup + int (length str)\<rparr>
                                 else markup)
                              (s_markups serialization)
            in set_text (serialization\<lparr>s_markups := markups\<rparr>) (s_text serialization @ str)
      | Other other \<Rightarrow> mergeAdjacent (append_unmerged this other))"

text \<open>
  \<open>equals\<close> compares, index by index, the number of keys of both markups and the value
  of every key of the receiver's markup. A markup has the keys \<open>type\<close>, \<open>start\<close>, \<open>end\<close>,
  and \<open>href\<close> when it is defined.
\<close>

definition keys_length :: "markup \<Rightarrow> nat" where
  "keys_length m = (if m_href m = None then 3 else 4)"

definition equals_markup :: "markup \<Rightarrow> markup \<Rightarrow> bool" where
  "equals_markup markup otherMarkup \<longleftrightarrow>
     keys_length markup = keys_length otherMarkup \<and>
     m_type markup = m_type otherMarkup \<and>
     m_start markup = m_start otherMarkup \<and>
     m_end markup = m_end otherMarkup \<and>
     (m_href markup \<noteq> None \<longrightarrow> m_href markup = m_href otherMarkup)"

definition equals :: "serialization \<Rightarrow> serialization \<Rightarrow> bool" where
  "equals this other \<longleftrightarrow>
     \<not> (s_type this \<noteq> s_type other \<or> s_text this \<noteq> s_text other \<or>
        length (s_markups this) \<noteq> length (s_markups other)) \<and>
     list_all2 equals_markup (s_markups this) (s_markups other)"

section \<open>replace\<close>

text \<open>
  Modelled from the spec: the module \<open>./replace\<close>, which is \<open>Serialize#replace\<close>, is
  not among the sources, and the matching itself is the host's \<open>String#replace\<close>.
  A pattern is represented by the literal it matches, and a pattern without the
  global flag matches its first occurrence only. For one match \<open>[matchStart, matchEnd)\<close>
  and a replacement of \<open>newLen\<close> units the specification truncates every markup that
  meets the match, drops a markup inside the match, and then shifts every position at
  or after \<open>matchEnd\<close> by \<open>newLen - (matchEnd - matchStart)\<close>.
\<close>

fun index_of :: "jsstring \<Rightarrow> jsstring \<Rightarrow> nat option" where
  "index_of pattern [] = (if pattern = [] then Some 0 else None)"
| "index_of pattern (c # cs) =
     (if take (length pattern) (c # cs) = pattern then Some 0
      else map_option Suc (index_of pattern cs))"

definition replace_markup :: "int \<Rightarrow> int \<Rightarrow> int \<Rightarrow> markup \<Rightarrow> markup option" where
  "replace_markup matchStart matchEnd newLen m =
     (let delta = newLen - (matchEnd - matchStart);
          shift = (\<lambda>p. if p \<ge> matchEnd then p + delta else p);
          truncated =
            (if m_start m < matchEnd \<and> m_end m > matchStart then
               (if matchStart \<le> m_start m \<and> m_end m \<le> matchEnd then None
                else if m_start m \<le> matchStart \<and> matchEnd \<le> m_end m then Some m
                else if m_start m < matchStart then Some (m\<lparr>m_end := matchStart\<rparr>)
                else Some (m\<lparr>m_start := matchEnd\<rparr>))
             else Some m)
      in map_option (\<lambda>t. t\<lparr>m_start := shift (m_start t), m_end := shift (m_end t)\<rparr>) truncated)"

definition replace_match :: "serialization \<Rightarrow> nat \<Rightarrow> nat \<Rightarrow> jsstring \<Rightarrow> serialization" where
  "replace_match this matchStart matchEnd newText =
     set_text
       (this\<lparr>s_markups :=
          List.map_filter (replace_markup (int matchStart) (int matchEnd) (int (length newText)))
            (s_markups this)\<rparr>)
       (take matchStart (s_text this) @ newText @ drop matchEnd (s_text this))"

definition replace :: "serialization \<Rightarrow> jsstring \<Rightarrow> jsstring \<Rightarrow> serialization" where
  "replace this pattern newText =
     (case index_of pattern (s_text this) of
        None \<Rightarrow> this
      | Some i \<Rightarrow> replace_match this i (i + length pattern) newText)"

section \<open>fromJSON\<close>

text \<open>
  The value \<open>JSON.parse\<close> returns. Of a number only whether it is zero matters here.
  An object keeps its members in the order of the text; a repeated key takes its last
  value.
\<close>

datatype json =
    JNull
  | JBool bool
  | JNumber int
  | JString jsstring
  | JArray "json list"
  | JObject "(string \<times> json) list"

datatype error = TypeError_property_of_null | TypeError_required_properties

text \<open>
  Reading a property: \<open>null\<close> has none and the access throws; an object has its
  members; every other value has none of the three properties read here, which is
  \<open>undefined\<close> (\<open>None\<close>).
\<close>

definition property :: "json \<Rightarrow> string \<Rightarrow> error + json option" where
  "property v name =
     (case v of
        JNull \<Rightarrow> Inl TypeError_property_of_null
      | JObject members \<Rightarrow> Inr (map_of (rev members) name)
      | _ \<Rightarrow> Inr None)"

text \<open>\<open>!v\<close> is true for \<open>undefined\<close>, \<open>null\<close>, \<open>false\<close>, zero and the empty string.\<close>

definition falsy :: "json option \<Rightarrow> bool" where
  "falsy v =
     (case v of
        None \<Rightarrow> True
      | Some JNull \<Rightarrow> True
      | Some (JBool b) \<Rightarrow> \<not> b
      | Some (JNumber n) \<Rightarrow> n = 0
      | Some (JString str) \<Rightarrow> str = []
      | Some _ \<Rightarrow> False)"

text \<open>
  The object \<open>fromJSON\<close> returns holds in \<open>type\<close> and \<open>markups\<close> whatever the
  payload held there: neither is checked beyond being truthy.
\<close>

record json_serialization =
  j_type :: json
  j_text :: jsstring
  j_length :: nat
  j_markups :: json

definition fromJSON :: "json \<Rightarrow> error + json_serialization" where
  "fromJSON result =
     (case property result ''text'' of
        Inl e \<Rightarrow> Inl e
      | Inr (Some (JString text)) \<Rightarrow>
          (case property result ''type'' of
             Inl e \<Rightarrow> Inl e
           | Inr None \<Rightarrow> Inl TypeError_required_properties
           | Inr (Some type') \<Rightarrow>
               if falsy (Some type') then Inl TypeError_required_properties
               else
                 (case property result ''markups'' of
                    Inl e \<Rightarrow> Inl e
                  | Inr markups \<Rightarrow>
                      Inr \<lparr>j_type = type', j_text = text, j_length = length text,
                           j_markups = (if falsy markups then JArray []
                                        else (case markups of Some ms \<Rightarrow> ms | None \<Rightarrow> JArray []))\<rparr>))
      | Inr _ \<Rightarrow> Inl TypeError_required_properties)"

text \<open>The condition of the specification: the field is absent or is the empty string.\<close>

definition missing_or_empty :: "json option \<Rightarrow> bool" where
  "missing_or_empty v \<longleftrightarrow> v = None \<or> v = Some (JString [])"

definition is_string :: "json option \<Rightarrow> bool" where
  "is_string v = (case v of Some (JString str) \<Rightarrow> True | _ \<Rightarrow> False)"

text \<open>The member of a parsed object, \<open>None\<close> when the payload has no such member.\<close>

definition field :: "json \<Rightarrow> string \<Rightarrow> json option" where
  "field v name = (case property v name of Inl e \<Rightarrow> None | Inr x \<Rightarrow> x)"


section \<open>Notions used in the properties\<close>

text \<open>
  The invariants of the data model: the length is that of the text, and every markup
  is a non-empty range within the text.
\<close>

definition valid_markup :: "nat \<Rightarrow> markup \<Rightarrow> bool" where
  "valid_markup len m \<longleftrightarrow> 0 \<le> m_start m \<and> m_start m < m_end m \<and> m_end m \<le> int len"

definition valid_markups :: "serialization \<Rightarrow> bool" where
  "valid_markups s \<longleftrightarrow> list_all (valid_markup (s_length s)) (s_markups s)"

text \<open>
  No two markups of one type touch or overlap: of two such markups the earlier one
  in the list ends before the later one starts.
\<close>

definition separated :: "markup list \<Rightarrow> bool" where
  "separated ms = sorted_wrt (\<lambda>a b. m_type a = m_type b \<longrightarrow> m_end a < m_start b) ms"


text \<open>
  What appending a string does to a markup, in the words of the specification: a
  markup that ends at the old length ends at the new length, any other is unchanged.
\<close>

definition extended :: "nat \<Rightarrow> nat \<Rightarrow> markup \<Rightarrow> markup" where
  "extended oldLength newLength m =
     (if m_end m = int oldLength then m\<lparr>m_end := int newLength\<rparr> else m)"

text \<open>
  The parts of a markup on either side of a position \<open>k\<close>: a markup that ends by \<open>k\<close> or
  starts at or after \<open>k\<close> is one part, a markup across \<open>k\<close> is cut at \<open>k\<close>.
\<close>

definition pieces :: "int \<Rightarrow> markup \<Rightarrow> markup list" where
  "pieces k m =
     (if m_end m \<le> k \<or> k \<le> m_start m then [m]
      else [m\<lparr>m_end := k\<rparr>, m\<lparr>m_start := k\<rparr>])"

section \<open>Examples\<close>

text \<open>A text of ten characters with two markups.\<close>

definition digits :: serialization where
  "digits = \<lparr>s_type = ''p'', s_text = ascii ''0123456789'', s_length = 10,
              s_markups = [markup_of 1 0 4, markup_of 2 3 10]\<rparr>"

text \<open>Scenario 3: the text "12" with \<open>{bold,1,2}\<close> and \<open>{italic,0,1}\<close>, bold being 1 and italic 2.\<close>

definition scenario_3 :: serialization where
  "scenario_3 = \<lparr>s_type = ''p'', s_text = ascii ''12'', s_length = 2,
                  s_markups = [markup_of 1 1 2, markup_of 2 0 1]\<rparr>"

text \<open>Two payloads: one with the number zero as its type, one well-formed.\<close>

definition payload_type_zero :: json where
  "payload_type_zero = JObject [(''text'', JString (ascii ''a'')), (''type'', JNumber 0)]"

definition payload_p :: json where
  "payload_p = JObject [(''type'', JString (ascii ''p'')), (''text'', JString (ascii ''a''))]"


text \<open>The text "abcd" with one markup over all of it.\<close>

definition whole_bold :: serialization where
  "whole_bold = \<lparr>s_type = ''p'', s_text = ascii ''abcd'', s_length = 4,
                  s_markups = [markup_of 1 0 4]\<rparr>"

text \<open>The text "abcd" with two markups of one type that touch at 2.\<close>

definition adjacent_bold :: serialization where
  "adjacent_bold = \<lparr>s_type = ''p'', s_text = ascii ''abcd'', s_length = 4,
                     s_markups = [markup_of 1 0 2, markup_of 1 2 4]\<rparr>"

text \<open>The text "ab" with a markup that ends beyond the text, as \<open>addMarkup\<close> accepts it.\<close>

definition beyond_end :: serialization where
  "beyond_end = \<lparr>s_type = ''p'', s_text = ascii ''ab'', s_length = 2,
                  s_markups = [markup_of 1 0 5]\<rparr>"


section \<open>Properties of addMarkup\<close>

subsection \<open>The scanning loops\<close>


lemma key_le_iff:
  "key a \<le> key b \<longleftrightarrow>
     m_type a < m_type b \<or>
     (m_type a = m_type b \<and> (m_start a < m_start b \<or> (m_start a = m_start b \<and> m_end a \<le> m_end b)))"
  by (auto simp: key_def)

lemma advance_ge: "i \<le> advance c ms i"
proof (induction c ms i rule: advance.induct)
  case (1 c ms i)
  show ?case
  proof (cases "i < length ms \<and> c (ms ! i)")
    case True
    with 1 have "i + 1 \<le> advance c ms (i + 1)" by simp
    with True show ?thesis by (subst advance.simps) simp
  next
    case False
    then show ?thesis by (subst advance.simps) auto
  qed
qed

lemma advance_le: "i \<le> length ms \<Longrightarrow> advance c ms i \<le> length ms"
proof (induction c ms i rule: advance.induct)
  case (1 c ms i)
  show ?case
  proof (cases "i < length ms \<and> c (ms ! i)")
    case True
    with 1 have "advance c ms (i + 1) \<le> length ms" by simp
    with True show ?thesis by (subst advance.simps) simp
  next
    case False
    with 1 show ?thesis by (subst advance.simps) auto
  qed
qed

lemma advance_passed: "i \<le> k \<Longrightarrow> k < advance c ms i \<Longrightarrow> c (ms ! k)"
proof (induction c ms i rule: advance.induct)
  case (1 c ms i)
  show ?case
  proof (cases "i < length ms \<and> c (ms ! i)")
    case True
    then have eq: "advance c ms i = advance c ms (i + 1)" by (subst advance.simps) simp
    show ?thesis
    proof (cases "k = i")
      case True
      with \<open>i < length ms \<and> c (ms ! i)\<close> show ?thesis by simp
    next
      case False
      with 1 True eq show ?thesis by simp
    qed
  next
    case False
    then have "advance c ms i = i" by (subst advance.simps) auto
    with 1 show ?thesis by simp
  qed
qed

lemma advance_stop: "advance c ms i < length ms \<Longrightarrow> \<not> c (ms ! advance c ms i)"
proof (induction c ms i rule: advance.induct)
  case (1 c ms i)
  show ?case
  proof (cases "i < length ms \<and> c (ms ! i)")
    case True
    then have eq: "advance c ms i = advance c ms (i + 1)" by (subst advance.simps) simp
    with 1 True show ?thesis by simp
  next
    case False
    then have "advance c ms i = i" by (subst advance.simps) auto
    with 1 False show ?thesis by simp
  qed
qed

lemma sorted_insert_at:
  assumes "sorted (map key ms)" "j \<le> length ms"
    and "\<And>k. k < j \<Longrightarrow> key (ms ! k) \<le> key m"
    and "\<And>k. j \<le> k \<Longrightarrow> k < length ms \<Longrightarrow> key m \<le> key (ms ! k)"
  shows "sorted (map key (array_splice ms j 0 [m]))"
proof -
  have 1: "sorted (map key (take j ms))" "sorted (map key (drop j ms))"
    using assms(1) by (simp_all add: sorted_wrt_take sorted_wrt_drop flip: take_map drop_map)
  have 2: "\<forall>x\<in>set (take j ms). key x \<le> key m"
    using assms(2,3) by (auto simp: in_set_conv_nth)
  have 3: "\<forall>y\<in>set (drop j ms). key m \<le> key y"
    using assms(2,4) by (auto simp: in_set_conv_nth)
  have 4: "\<forall>x\<in>set (take j ms). \<forall>y\<in>set (drop j ms). key x \<le> key y"
    using 2 3 by (meson order_trans)
  show ?thesis
    unfolding array_splice_def using 1 2 3 4 by (simp add: sorted_append)
qed


lemma addMarkup_sorted:
  assumes srt: "sorted_markups (s_markups s)"
  shows "sorted_markups (s_markups (addMarkup s toAdd))"
proof -
  define ms where "ms = s_markups s"
  define c1 where "c1 = (\<lambda>m::markup. m_type toAdd > m_type m)"
  define c2 where "c2 = (\<lambda>m::markup. m_type toAdd = m_type m \<and> m_start toAdd > m_start m)"
  define c3 where "c3 = (\<lambda>m::markup. m_type toAdd = m_type m \<and> m_start toAdd = m_start m \<and>
                            m_end toAdd > m_end m)"
  define j1 where "j1 = advance c1 ms 0"
  define j2 where "j2 = advance c2 ms j1"
  define j3 where "j3 = advance c3 ms j2"
  have res: "s_markups (addMarkup s toAdd) = array_splice ms j3 0 [toAdd]"
    by (simp add: addMarkup_def Let_def ms_def c1_def c2_def c3_def j1_def j2_def j3_def)
  have sorted: "sorted (map key ms)"
    using srt by (simp add: sorted_markups_def ms_def)
  have mono: "key (ms ! a) \<le> key (ms ! b)" if "a \<le> b" "b < length ms" for a b
    using sorted that by (simp add: sorted_iff_nth_mono)
  have le: "j1 \<le> j2" "j2 \<le> j3" "j1 \<le> length ms" "j2 \<le> length ms" "j3 \<le> length ms"
    by (simp_all add: j1_def j2_def j3_def advance_ge advance_le)
  have before: "key (ms ! k) \<le> key toAdd" if kj: "k < j3" for k
  proof -
    consider "k < j1" | "j1 \<le> k" "k < j2" | "j2 \<le> k" "k < j3"
      using kj by (cases "k < j1"; cases "k < j2"; simp)
    then show ?thesis
    proof cases
      case 1
      then have "c1 (ms ! k)" unfolding j1_def by (intro advance_passed) simp_all
      then show ?thesis by (simp add: c1_def key_le_iff)
    next
      case 2
      then have "c2 (ms ! k)" unfolding j2_def by (intro advance_passed)
      then show ?thesis by (simp add: c2_def key_le_iff)
    next
      case 3
      then have "c3 (ms ! k)" unfolding j3_def by (intro advance_passed)
      then show ?thesis by (simp add: c3_def key_le_iff)
    qed
  qed
  have at: "key toAdd \<le> key (ms ! j3)" if lt: "j3 < length ms"
  proof -
    have n1: "\<not> c1 (ms ! j1)" unfolding j1_def using le lt
      by (intro advance_stop) (simp add: j1_def)
    have n2: "\<not> c2 (ms ! j2)" unfolding j2_def using le lt
      by (intro advance_stop) (simp add: j2_def)
    have n3: "\<not> c3 (ms ! j3)" unfolding j3_def using le lt
      by (intro advance_stop) (simp add: j3_def)
    have m12: "key (ms ! j1) \<le> key (ms ! j2)" and m23: "key (ms ! j2) \<le> key (ms ! j3)"
      using le lt by (simp_all add: mono)
    show ?thesis
      using n1 n2 n3 m12 m23 unfolding c1_def c2_def c3_def key_le_iff by auto
  qed
  have after: "key toAdd \<le> key (ms ! k)" if "j3 \<le> k" "k < length ms" for k
  proof -
    have "key toAdd \<le> key (ms ! j3)" using at that by simp
    also have "\<dots> \<le> key (ms ! k)" using that by (simp add: mono)
    finally show ?thesis .
  qed
  show ?thesis
    unfolding res sorted_markups_def
    by (rule sorted_insert_at [OF sorted le(5) before after])
qed

lemma addMarkups_sorted:
  "sorted_markups (s_markups s) \<Longrightarrow> sorted_markups (s_markups (addMarkups s xs))"
  unfolding addMarkups_def
  by (induction xs arbitrary: s) (simp_all add: addMarkup_sorted)


text \<open>
  C2. If the markups of a serialization are sorted by type, then start, then end, they
  are sorted again after each call of a sequence of \<open>addMarkup\<close> calls: for every
  prefix of the sequence, the list reached after that prefix is sorted.
\<close>

theorem addMarkup_sort_invariant:
  assumes "sorted_markups (s_markups s)"
  shows "\<forall>n \<le> length toAdd. sorted_markups (s_markups (addMarkups s (take n toAdd)))"
  using assms by (simp add: addMarkups_sorted)


theorem addMarkup_sort_invariant_witness:
  "sorted_markups (s_markups (new_Serialize ''p'')) \<and>
   sorted_markups (s_markups
     (addMarkups (new_Serialize ''p'') (take 2 [markup_of 2 0 1, markup_of 1 1 2, markup_of 1 0 2]))) \<and>
   sorted_markups (s_markups
     (addMarkups (new_Serialize ''p'') [markup_of 2 0 1, markup_of 1 1 2, markup_of 1 0 2]))"
proof -
  have h: "sorted_markups (s_markups (new_Serialize ''p''))"
    by (simp add: new_Serialize_def sorted_markups_def)
  show ?thesis
    using h
      addMarkup_sort_invariant [OF h, of "[markup_of 2 0 1, markup_of 1 1 2, markup_of 1 0 2]",
        rule_format, of 2]
      addMarkup_sort_invariant [OF h, of "[markup_of 2 0 1, markup_of 1 1 2, markup_of 1 0 2]",
        rule_format, of 3]
    by simp
qed

section \<open>Properties of removeMarkup\<close>

text \<open>
  C1. \<open>removeMarkup\<close> returns as soon as it has split a markup that contains the range,
  so a later markup of the same type that overlaps the range stays as it was. On the
  sorted markups \<open>{1,0,10}\<close>, \<open>{1,2,8}\<close> the call with \<open>{1,3,5}\<close> splits the first
  and leaves \<open>{1,2,8}\<close>, which overlaps \<open>[3,5)\<close>.
\<close>

theorem removeMarkup_leaves_overlap:
  "s_markups (removeMarkup
      \<lparr>s_type = ''p'', s_text = ascii ''0123456789'', s_length = 10,
       s_markups = [markup_of 1 0 10, markup_of 1 2 8]\<rparr>
      (markup_of 1 3 5))
     = [markup_of 1 0 3, markup_of 1 5 10, markup_of 1 2 8]
   \<and> sorted_markups [markup_of 1 0 10, markup_of 1 2 8]
   \<and> m_type (markup_of 1 2 8) = m_type (markup_of 1 3 5)
   \<and> overlaps (markup_of 1 2 8) (markup_of 1 3 5)"
  by (simp add: removeMarkup_def removeMarkup_loop.simps markup_of_def array_splice_def
      overlaps_def sorted_markups_def key_def)

text \<open>
  C4. Scenario 1: on the text "Some bold and italic text" with the markups
  \<open>{bold,5,9}\<close> and \<open>{italic,14,20}\<close>, where \<open>bold < italic\<close>, \<open>removeMarkup({bold,6,8})\<close>
  leaves \<open>{bold,5,6}\<close>, \<open>{bold,8,9}\<close> and the italic markup as it was; the markups of
  type bold are exactly the two pieces.
\<close>

theorem removeMarkup_scenario_1:
  assumes "bold < italic"
  shows "removeMarkup
      \<lparr>s_type = ''p'', s_text = ascii ''Some bold and italic text'', s_length = 25,
       s_markups = [markup_of bold 5 9, markup_of italic 14 20]\<rparr>
      (markup_of bold 6 8)
     = \<lparr>s_type = ''p'', s_text = ascii ''Some bold and italic text'', s_length = 25,
        s_markups = [markup_of bold 5 6, markup_of bold 8 9, markup_of italic 14 20]\<rparr>
   \<and> filter (\<lambda>m. m_type m = bold)
        (s_markups (removeMarkup
          \<lparr>s_type = ''p'', s_text = ascii ''Some bold and italic text'', s_length = 25,
           s_markups = [markup_of bold 5 9, markup_of italic 14 20]\<rparr>
          (markup_of bold 6 8)))
     = [markup_of bold 5 6, markup_of bold 8 9]"
  using assms
  by (simp add: removeMarkup_def removeMarkup_loop.simps markup_of_def array_splice_def)

theorem removeMarkup_scenario_1_witness:
  "(1::int) < 2 \<and>
   removeMarkup
      \<lparr>s_type = ''p'', s_text = ascii ''Some bold and italic text'', s_length = 25,
       s_markups = [markup_of 1 5 9, markup_of 2 14 20]\<rparr>
      (markup_of 1 6 8)
     = \<lparr>s_type = ''p'', s_text = ascii ''Some bold and italic text'', s_length = 25,
        s_markups = [markup_of 1 5 6, markup_of 1 8 9, markup_of 2 14 20]\<rparr>"
  using removeMarkup_scenario_1 [of 1 2] by simp

section \<open>Properties of replace\<close>

text \<open>
  C8. Scenario 2: on the text "One... two" with the markup \<open>{italic,5,10}\<close>, replacing
  the three full stops by the ellipsis (one unit, U+2026) gives the text "One\<dots> two"
  of length 8 with the single markup \<open>{italic,4,8}\<close>.
\<close>

theorem replace_scenario_2:
  "replace
      \<lparr>s_type = ''p'', s_text = ascii ''One... two'', s_length = 10,
       s_markups = [markup_of italic 5 10]\<rparr>
      (ascii ''...'') [0x2026]
     = \<lparr>s_type = ''p'', s_text = ascii ''One'' @ [0x2026] @ ascii '' two'', s_length = 8,
        s_markups = [markup_of italic 4 8]\<rparr>"
  by (simp add: replace_def replace_match_def replace_markup_def set_text_def markup_of_def
      ascii_def List.map_filter_def)

section \<open>Properties of substr\<close>

subsection \<open>The start index\<close>


lemma resolveStart_nonneg: "0 \<le> start \<Longrightarrow> resolveStart len start = start"
  by (subst resolveStart.simps) simp

lemma resolveStart_step:
  "0 < len \<Longrightarrow> start < 0 \<Longrightarrow> resolveStart len start = resolveStart len (int len + start)"
  by (subst resolveStart.simps) simp

lemma resolveStart_mod:
  "0 < len \<Longrightarrow> start < 0 \<Longrightarrow> resolveStart len start = start mod int len"
proof (induction len start rule: resolveStart.induct)
  case (1 len start)
  have step: "resolveStart len start = resolveStart len (int len + start)"
    using 1(2,3) by (rule resolveStart_step)
  show ?case
  proof (cases "int len + start < 0")
    case True
    have "resolveStart len (int len + start) = (int len + start) mod int len"
      using 1 True by simp
    also have "\<dots> = start mod int len" by simp
    finally show ?thesis using step by simp
  next
    case False
    then have "resolveStart len (int len + start) = int len + start"
      by (simp add: resolveStart_nonneg)
    moreover have "start mod int len = int len + start"
    proof -
      have "(int len + start) mod int len = int len + start"
        using False 1(3) by (intro mod_pos_pos_trivial) simp_all
      then show ?thesis by simp
    qed
    ultimately show ?thesis using step by simp
  qed
qed


lemma resolveStart_range:
  "0 < len \<Longrightarrow> start < 0 \<Longrightarrow> 0 \<le> resolveStart len start \<and> resolveStart len start < int len"
  by (simp add: resolveStart_mod)

lemma resolveStart_idem: "resolveStart len (resolveStart len start) = resolveStart len start"
proof (cases "start < 0 \<and> 0 < len")
  case True
  then have "0 \<le> resolveStart len start" using resolveStart_range by blast
  then show ?thesis by (rule resolveStart_nonneg)
next
  case False
  then have "resolveStart len start = start" by (subst resolveStart.simps) auto
  then show ?thesis by simp
qed

lemma substr_resolved: "substr s start len = substr s (resolveStart (s_length s) start) len"
  unfolding substr_def resolveStart_idem by (rule refl)


text \<open>
  C5. On a serialization of positive length, \<open>substr\<close> with a negative start adds the
  length to the start, again while the sum is negative; the index so reached equals
  \<open>start mod length\<close>, is not negative, so that clamping it to 0 leaves it as it is,
  and \<open>substr\<close> returns what it returns for that index. On a text of ten characters
  \<open>substr(-3)\<close> is \<open>substr(7)\<close>.
\<close>

theorem substr_negative_start:
  assumes "0 < s_length s" and "start < 0"
  shows "resolveStart (s_length s) start =
           (if int (s_length s) + start < 0 then resolveStart (s_length s) (int (s_length s) + start)
            else int (s_length s) + start)
       \<and> resolveStart (s_length s) start = start mod int (s_length s)
       \<and> substr s start len = substr s (max 0 (resolveStart (s_length s) start)) len
       \<and> (s_length s = 10 \<longrightarrow> substr s (- 3) len = substr s 7 len)"
proof -
  have step: "resolveStart (s_length s) start = resolveStart (s_length s) (int (s_length s) + start)"
    using assms by (rule resolveStart_step)
  have 1: "resolveStart (s_length s) start =
           (if int (s_length s) + start < 0 then resolveStart (s_length s) (int (s_length s) + start)
            else int (s_length s) + start)"
  proof (cases "int (s_length s) + start < 0")
    case True
    then show ?thesis using step by simp
  next
    case False
    then have "resolveStart (s_length s) (int (s_length s) + start) = int (s_length s) + start"
      by (simp add: resolveStart_nonneg)
    then show ?thesis using step False by simp
  qed
  have 2: "resolveStart (s_length s) start = start mod int (s_length s)"
    using assms by (rule resolveStart_mod)
  have "0 \<le> resolveStart (s_length s) start"
    using assms resolveStart_range by blast
  then have "max 0 (resolveStart (s_length s) start) = resolveStart (s_length s) start"
    by simp
  then have 3: "substr s start len = substr s (max 0 (resolveStart (s_length s) start)) len"
    using substr_resolved [of s start len] by simp
  have 4: "substr s (- 3) len = substr s 7 len" if "s_length s = 10"
  proof -
    have "resolveStart (s_length s) (- 3) = (- 3) mod int (s_length s)"
      using that by (intro resolveStart_mod) simp_all
    then have "resolveStart (s_length s) (- 3) = 7"
      using that by simp
    then show ?thesis using substr_resolved [of s "- 3" len] by simp
  qed
  from 1 2 3 4 show ?thesis by blast
qed

theorem substr_negative_start_witness:
  "0 < s_length digits \<and> (- 13 :: int) < 0
     \<and> substr digits (- 13) None = substr digits 7 None
     \<and> substr digits (- 3) None = substr digits 7 None
     \<and> substr digits 7 None = \<lparr>s_type = ''p'', s_text = ascii ''789'', s_length = 3,
              s_markups = [markup_of 2 0 3]\<rparr>"
proof -
  have h: "0 < s_length digits" "s_length digits = 10" by (simp_all add: digits_def)
  have e: "substr digits 7 None = \<lparr>s_type = ''p'', s_text = ascii ''789'', s_length = 3,
              s_markups = [markup_of 2 0 3]\<rparr>"
    by code_simp
  have n: "(- 13 :: int) < 0" "(- 3 :: int) < 0" by simp_all
  note A = substr_negative_start [OF h(1) n(1), of None]
  note B = substr_negative_start [OF h(1) n(2), of None]
  from A have a2: "resolveStart (s_length digits) (- 13) = (- 13) mod int (s_length digits)"
    by blast
  from A have a3: "substr digits (- 13) None =
      substr digits (max 0 (resolveStart (s_length digits) (- 13))) None"
    by blast
  from B h(2) have b4: "substr digits (- 3) None = substr digits 7 None"
    by blast
  have r: "resolveStart (s_length digits) (- 13) = 7"
    using a2 by (simp add: h(2))
  have a5: "substr digits (- 13) None = substr digits 7 None"
    by (subst a3) (simp add: r)
  from h(1) n(1) a5 b4 e show ?thesis by blast
qed

subsection \<open>The markups of a slice\<close>


lemma addMarkup_fields [simp]:
  "s_type (addMarkup s m) = s_type s"
  "s_text (addMarkup s m) = s_text s"
  "s_length (addMarkup s m) = s_length s"
  by (simp_all add: addMarkup_def Let_def)

lemma mset_array_splice_insert: "mset (array_splice ms i 0 [m]) = add_mset m (mset ms)"
proof -
  have "mset (take i ms) + mset (drop i ms) = mset ms"
    by (simp flip: mset_append)
  then show ?thesis
    by (simp add: array_splice_def)
qed

lemma mset_addMarkup: "mset (s_markups (addMarkup s m)) = add_mset m (mset (s_markups s))"
  by (simp add: addMarkup_def Let_def mset_array_splice_insert)

text \<open>The loops of \<open>substr\<close> and \<open>append\<close>: a conditional \<open>addMarkup\<close> per markup.\<close>

lemma fold_addMarkup_fields:
  "s_type (fold (\<lambda>m acc. if P m then addMarkup acc (f m) else acc) ms init) = s_type init \<and>
   s_text (fold (\<lambda>m acc. if P m then addMarkup acc (f m) else acc) ms init) = s_text init \<and>
   s_length (fold (\<lambda>m acc. if P m then addMarkup acc (f m) else acc) ms init) = s_length init"
  by (induction ms arbitrary: init) simp_all

lemma mset_fold_addMarkup:
  "mset (s_markups (fold (\<lambda>m acc. if P m then addMarkup acc (f m) else acc) ms init))
     = mset (s_markups init) + mset (map f (filter P ms))"
  by (induction ms arbitrary: init) (simp_all add: mset_addMarkup)

lemma set_fold_addMarkup:
  "set (s_markups (fold (\<lambda>m acc. if P m then addMarkup acc (f m) else acc) ms init))
     = set (s_markups init) \<union> f ` {m \<in> set ms. P m}"
proof -
  have "set_mset (mset (s_markups (fold (\<lambda>m acc. if P m then addMarkup acc (f m) else acc) ms init)))
     = set_mset (mset (s_markups init) + mset (map f (filter P ms)))"
    by (simp only: mset_fold_addMarkup)
  then show ?thesis by simp
qed

lemma substr_empty:
  "s_length s = 0 \<or> (case len of None \<Rightarrow> False | Some l \<Rightarrow> l \<le> 0)
     \<Longrightarrow> substr s start len = new_Serialize (s_type s)"
  by (simp add: substr_def)

lemma substr_unfold:
  assumes "\<not> (s_length s = 0 \<or> (case len of None \<Rightarrow> False | Some l \<Rightarrow> l \<le> 0))"
    and "st = resolveStart (s_length s) start"
    and "ln = (case len of None \<Rightarrow> int (s_length s) - st
               | Some l \<Rightarrow> if st + l > int (s_length s) then int (s_length s) - st else l)"
  shows "substr s start len =
     fold (\<lambda>markup acc. if m_start markup < st + ln \<and> m_end markup > st
                          then addMarkup acc (substr_newMarkup st (st + ln) markup) else acc)
       (s_markups s) (set_text (new_Serialize (s_type s)) (js_substr (s_text s) st ln))"
  using assms(1) unfolding assms(2,3) substr_def Let_def by simp

lemma length_js_substr:
  assumes "0 \<le> st" "st < int (length str)" "0 < ln" "st + ln \<le> int (length str)"
  shows "int (length (js_substr str st ln)) = ln"
proof -
  have "js_substr str st ln = take (nat ln) (drop (nat st) str)"
    using assms by (simp add: js_substr_def Let_def min_def max_def)
  moreover have "nat ln \<le> length str - nat st"
    using assms by linarith
  ultimately show ?thesis using assms by simp
qed

lemma resolveStart_ge_0: "0 < len \<Longrightarrow> 0 \<le> resolveStart len start"
  using resolveStart_range [of len start] resolveStart_nonneg [of start len]
  by (cases "start < 0") simp_all


text \<open>
  C10. If the length of a serialization is that of its text and each of its markups
  satisfies \<open>0 <= start < end <= length\<close>, then for all arguments the markups of the
  serialization \<open>substr\<close> returns satisfy \<open>0 <= start < end <= length\<close> of the result,
  and the length of the result is that of its text.
\<close>

theorem substr_markups_in_range:
  assumes len: "s_length s = length (s_text s)"
    and valid: "valid_markups s"
  shows "valid_markups (substr s start len)
       \<and> s_length (substr s start len) = length (s_text (substr s start len))"
proof (cases "s_length s = 0 \<or> (case len of None \<Rightarrow> False | Some l \<Rightarrow> l \<le> 0)")
  case True
  then show ?thesis by (simp add: substr_empty new_Serialize_def valid_markups_def)
next
  case False
  define L where "L = int (s_length s)"
  define st where "st = resolveStart (s_length s) start"
  define ln where "ln = (case len of None \<Rightarrow> int (s_length s) - st
               | Some l \<Rightarrow> if st + l > int (s_length s) then int (s_length s) - st else l)"
  define r where "r = substr s start len"
  have r: "r = fold (\<lambda>markup acc. if m_start markup < st + ln \<and> m_end markup > st
                          then addMarkup acc (substr_newMarkup st (st + ln) markup) else acc)
       (s_markups s) (set_text (new_Serialize (s_type s)) (js_substr (s_text s) st ln))"
    unfolding r_def by (rule substr_unfold [OF False st_def ln_def])
  have tx: "s_text r = js_substr (s_text s) st ln" and lg: "s_length r = length (s_text r)"
    unfolding r by (simp_all add: fold_addMarkup_fields set_text_def)
  have ms: "set (s_markups r) =
      substr_newMarkup st (st + ln) ` {m \<in> set (s_markups s). m_start m < st + ln \<and> m_end m > st}"
    unfolding r by (simp add: set_fold_addMarkup set_text_def new_Serialize_def)
  have Lpos: "0 < L" using False by (simp add: L_def)
  have st0: "0 \<le> st" using False unfolding st_def by (intro resolveStart_ge_0) simp
  have e_le: "st + ln \<le> L" and ln_pos: "st < L \<Longrightarrow> 0 < ln"
    using False by (auto simp: ln_def L_def split: option.splits)
  have "valid_markup (s_length r) (substr_newMarkup st (st + ln) m)"
    if m: "m \<in> set (s_markups s)" "m_start m < st + ln" "m_end m > st" for m
  proof -
    have vm: "0 \<le> m_start m" "m_start m < m_end m" "m_end m \<le> L"
      using valid m(1) by (auto simp: valid_markups_def list_all_iff valid_markup_def L_def)
    have stL: "st < L" using vm m(3) by simp
    have "int (length (js_substr (s_text s) st ln)) = ln"
      using st0 stL ln_pos e_le len by (intro length_js_substr) (simp_all add: L_def)
    then have lr: "int (s_length r) = ln" by (simp add: lg tx)
    show ?thesis
      using vm m(2,3) ln_pos [OF stL] unfolding valid_markup_def lr
      by (simp add: substr_newMarkup_def)
  qed
  then have "list_all (valid_markup (s_length r)) (s_markups r)"
    unfolding list_all_iff ms by blast
  with lg show ?thesis by (simp add: r_def valid_markups_def)
qed


theorem substr_markups_in_range_witness:
  "s_length digits = length (s_text digits) \<and> valid_markups digits \<and>
   valid_markups (substr digits 2 (Some 5)) \<and>
   s_length (substr digits 2 (Some 5)) = length (s_text (substr digits 2 (Some 5)))"
proof -
  have h1: "s_length digits = length (s_text digits)"
    by (simp add: digits_def ascii_def)
  have h2: "valid_markups digits"
    by (simp add: digits_def valid_markups_def valid_markup_def markup_of_def)
  from h1 h2 substr_markups_in_range [OF h1 h2, of 2 "Some 5"] show ?thesis
    by blast
qed

section \<open>Properties of append\<close>

subsection \<open>The copy made by substr(0)\<close>


lemma substr_newMarkup_id:
  "valid_markup L m \<Longrightarrow> substr_newMarkup 0 (int L) m = m"
  by (auto simp: valid_markup_def substr_newMarkup_def)

lemma js_substr_all: "js_substr str 0 (int (length str)) = str"
  by (simp add: js_substr_def Let_def)

lemma fold_addMarkup_sorted:
  "sorted_markups (s_markups init) \<Longrightarrow>
   sorted_markups (s_markups (fold (\<lambda>m acc. if P m then addMarkup acc (f m) else acc) ms init))"
  by (induction ms arbitrary: init) (simp_all add: addMarkup_sorted)

lemma sorted_key_unique:
  assumes "sorted (map key xs)" "sorted (map key ys)" "mset xs = mset ys" "inj_on key (set ys)"
  shows "xs = ys"
proof -
  have "mset (map key xs) = mset (map key ys)"
    using assms(3) by simp
  then have "map key xs = map key ys"
    using assms(1,2) by (metis properties_for_sort)
  moreover have "set xs = set ys"
    using assms(3) by (rule mset_eq_setD)
  ultimately show ?thesis
    using assms(4) by (simp add: inj_on_map_eq_map)
qed

lemma substr_0_fields:
  assumes len: "s_length s = length (s_text s)" and valid: "valid_markups s"
  shows "s_type (substr s 0 None) = toLowerCase (s_type s)"
    and "s_text (substr s 0 None) = s_text s"
    and "s_length (substr s 0 None) = s_length s"
    and "mset (s_markups (substr s 0 None)) = mset (s_markups s)"
    and "sorted_markups (s_markups (substr s 0 None))"
proof -
  have all: "s_type (substr s 0 None) = toLowerCase (s_type s) \<and> s_text (substr s 0 None) = s_text s \<and>
      s_length (substr s 0 None) = s_length s \<and>
      mset (s_markups (substr s 0 None)) = mset (s_markups s) \<and>
      sorted_markups (s_markups (substr s 0 None))"
  proof (cases "s_length s = 0")
    case True
    have "s_markups s = []"
    proof (cases "s_markups s")
      case (Cons m ms)
      then have "valid_markup 0 m" using valid True by (simp add: valid_markups_def)
      then have False by (auto simp: valid_markup_def)
      then show ?thesis ..
    qed simp
    with True len show ?thesis
      by (simp add: substr_empty new_Serialize_def sorted_markups_def)
  next
    case False
    define F where "F = (\<lambda>markup acc. if m_start markup < 0 + int (s_length s) \<and> m_end markup > 0
                          then addMarkup acc (substr_newMarkup 0 (0 + int (s_length s)) markup) else acc)"
    have r: "substr s 0 None =
       fold F (s_markups s) (set_text (new_Serialize (s_type s)) (js_substr (s_text s) 0 (int (s_length s))))"
      unfolding F_def
      by (rule substr_unfold) (use False in \<open>simp_all add: resolveStart_nonneg\<close>)
    have keep: "filter (\<lambda>m. m_start m < 0 + int (s_length s) \<and> m_end m > 0) (s_markups s) = s_markups s"
      using valid by (auto simp: valid_markups_def list_all_iff valid_markup_def filter_id_conv)
    have same: "map (substr_newMarkup 0 (0 + int (s_length s))) (s_markups s) = s_markups s"
      using valid by (auto simp: valid_markups_def list_all_iff substr_newMarkup_id map_idI)
    have "mset (s_markups (substr s 0 None)) = mset (s_markups s)"
      unfolding r F_def mset_fold_addMarkup keep same
      by (simp add: set_text_def new_Serialize_def)
    moreover have "sorted_markups (s_markups (substr s 0 None))"
      unfolding r F_def
      by (rule fold_addMarkup_sorted) (simp add: set_text_def new_Serialize_def sorted_markups_def)
    moreover have "s_type (substr s 0 None) = toLowerCase (s_type s)" "s_text (substr s 0 None) = s_text s"
      "s_length (substr s 0 None) = s_length s"
      unfolding r F_def using len
      by (simp_all add: fold_addMarkup_fields set_text_def new_Serialize_def js_substr_all)
    ultimately show ?thesis by simp
  qed
  from all show "s_type (substr s 0 None) = toLowerCase (s_type s)" "s_text (substr s 0 None) = s_text s"
    "s_length (substr s 0 None) = s_length s" "mset (s_markups (substr s 0 None)) = mset (s_markups s)"
    "sorted_markups (s_markups (substr s 0 None))"
    by simp_all
qed

lemma substr_0_copy:
  assumes "s_length s = length (s_text s)" "valid_markups s"
    "sorted_markups (s_markups s)" "inj_on key (set (s_markups s))"
  shows "substr s 0 None = s\<lparr>s_type := toLowerCase (s_type s)\<rparr>"
proof -
  have "s_markups (substr s 0 None) = s_markups s"
    using substr_0_fields(4,5) [OF assms(1,2)] assms(3,4)
    by (intro sorted_key_unique) (simp_all add: sorted_markups_def)
  then show ?thesis
    using substr_0_fields(1-3) [OF assms(1,2)] by simp
qed


lemma append_Text:
  "str \<noteq> [] \<Longrightarrow> append s (Text str) =
     set_text ((substr s 0 None)\<lparr>s_markups :=
         map (\<lambda>markup. if m_end markup = int (s_length (substr s 0 None))
                         then markup\<lparr>m_end := m_end markup + int (length str)\<rparr> else markup)
           (s_markups (substr s 0 None))\<rparr>)
       (s_text (substr s 0 None) @ str)"
  by (simp add: append_def Let_def)

lemma extended_eq:
  "(\<lambda>markup. if m_end markup = int L then markup\<lparr>m_end := m_end markup + int n\<rparr> else markup)
     = extended L (L + n)"
  by (rule ext) (simp add: extended_def)


text \<open>
  C6, as the code has it. For a serialization whose length is that of its text and
  whose markups are non-empty ranges within the text, and a non-empty string, \<open>append\<close>
  returns the type in lower case, as the constructor stores every type, appends the
  string to the text, and returns the markups of the receiver, as a multiset, with
  exactly those that ended at the old length now ending at the new length, the others
  unchanged and none merged. The copy is made by \<open>substr(0)\<close>, which inserts the markups
  one by one: the list is the receiver's list, in its order, when that was sorted and
  no two markups share type, start and end.
\<close>

theorem append_string:
  assumes len: "s_length s = length (s_text s)" and valid: "valid_markups s" and str: "str \<noteq> []"
  shows "s_type (append s (Text str)) = toLowerCase (s_type s)
     \<and> s_text (append s (Text str)) = s_text s @ str
     \<and> s_length (append s (Text str)) = s_length s + length str
     \<and> mset (s_markups (append s (Text str)))
         = image_mset (extended (s_length s) (s_length s + length str)) (mset (s_markups s))
     \<and> (sorted_markups (s_markups s) \<and> inj_on key (set (s_markups s)) \<longrightarrow>
          s_markups (append s (Text str))
            = map (extended (s_length s) (s_length s + length str)) (s_markups s))"
proof -
  note c = substr_0_fields [OF len valid]
  have ms: "s_markups (append s (Text str))
      = map (extended (s_length s) (s_length s + length str)) (s_markups (substr s 0 None))"
    using str by (simp add: append_Text set_text_def c(3) extended_eq)
  have 1: "s_type (append s (Text str)) = toLowerCase (s_type s)"
    using str by (simp add: append_Text set_text_def c(1))
  have 2: "s_text (append s (Text str)) = s_text s @ str"
    using str by (simp add: append_Text set_text_def c(2))
  have 3: "s_length (append s (Text str)) = s_length s + length str"
    using str len by (simp add: append_Text set_text_def c(2))
  have 4: "mset (s_markups (append s (Text str)))
         = image_mset (extended (s_length s) (s_length s + length str)) (mset (s_markups s))"
    unfolding ms mset_map c(4) by (rule refl)
  have 5: "s_markups (append s (Text str))
            = map (extended (s_length s) (s_length s + length str)) (s_markups s)"
    if "sorted_markups (s_markups s)" "inj_on key (set (s_markups s))"
    unfolding ms using substr_0_copy [OF len valid that] by simp
  from 1 2 3 4 5 show ?thesis by blast
qed

theorem append_string_witness:
  "s_length scenario_3 = length (s_text scenario_3) \<and> valid_markups scenario_3 \<and>
   ascii ''345'' \<noteq> [] \<and>
   sorted_markups (s_markups scenario_3) \<and> inj_on key (set (s_markups scenario_3)) \<and>
   s_text (append scenario_3 (Text (ascii ''345''))) = ascii ''12345'' \<and>
   s_length (append scenario_3 (Text (ascii ''345''))) = 5 \<and>
   s_markups (append scenario_3 (Text (ascii ''345''))) = [markup_of 1 1 5, markup_of 2 0 1]"
proof -
  have h1: "s_length scenario_3 = length (s_text scenario_3)"
    by (simp add: scenario_3_def ascii_def)
  have h2: "valid_markups scenario_3"
    by (simp add: scenario_3_def valid_markups_def valid_markup_def markup_of_def)
  have h3: "ascii ''345'' \<noteq> []"
    by (simp add: ascii_def)
  have h4: "sorted_markups (s_markups scenario_3)"
    by (simp add: scenario_3_def sorted_markups_def key_def markup_of_def)
  have h5: "inj_on key (set (s_markups scenario_3))"
    by (simp add: scenario_3_def key_def markup_of_def)
  note A = append_string [OF h1 h2 h3]
  from A have t: "s_text (append scenario_3 (Text (ascii ''345''))) = s_text scenario_3 @ ascii ''345''"
    and l: "s_length (append scenario_3 (Text (ascii ''345''))) = s_length scenario_3 + length (ascii ''345'')"
    by blast+
  from A h4 h5 have m: "s_markups (append scenario_3 (Text (ascii ''345'')))
      = map (extended (s_length scenario_3) (s_length scenario_3 + length (ascii ''345'')))
          (s_markups scenario_3)"
    by blast
  have t': "s_text (append scenario_3 (Text (ascii ''345''))) = ascii ''12345''"
    unfolding t by (simp add: scenario_3_def ascii_def)
  have l': "s_length (append scenario_3 (Text (ascii ''345''))) = 5"
    unfolding l by (simp add: scenario_3_def ascii_def)
  have m': "s_markups (append scenario_3 (Text (ascii ''345''))) = [markup_of 1 1 5, markup_of 2 0 1]"
    unfolding m by (simp add: scenario_3_def ascii_def extended_def markup_of_def)
  from h1 h2 h3 h4 h5 t' l' m' show ?thesis by blast
qed

text \<open>
  C6, as stated, fails on the text "ab" with the markup \<open>{1,0,5}\<close>: its end is not the
  length 2, yet \<open>substr(0)\<close> clips it to the text and \<open>append("c")\<close> then extends it,
  returning \<open>{1,0,3}\<close>.
\<close>

theorem append_string_counterexample:
  "s_length beyond_end = length (s_text beyond_end)
   \<and> ascii ''c'' \<noteq> []
   \<and> m_end (markup_of 1 0 5) \<noteq> int (s_length beyond_end)
   \<and> s_markups (append beyond_end (Text (ascii ''c''))) = [markup_of 1 0 3]
   \<and> s_markups (append beyond_end (Text (ascii ''c'')))
        \<noteq> map (extended (s_length beyond_end) (s_length beyond_end + length (ascii ''c'')))
             (s_markups beyond_end)"
  by code_simp

section \<open>Properties of fromJSON\<close>


lemma property_cases:
  "(p = JNull \<and> (\<forall>n. property p n = Inl TypeError_property_of_null) \<and> (\<forall>n. field p n = None))
   \<or> (\<forall>n. property p n = Inr (field p n))"
  by (cases p) (simp_all add: property_def field_def)

lemma fromJSON_null: "fromJSON JNull = Inl TypeError_property_of_null"
  by (simp add: fromJSON_def property_def)

lemma fromJSON_fields:
  assumes "\<forall>n. property p n = Inr (field p n)"
  shows "fromJSON p =
     (case field p ''text'' of
        Some (JString text) \<Rightarrow>
          (case field p ''type'' of
             None \<Rightarrow> Inl TypeError_required_properties
           | Some type' \<Rightarrow>
               if falsy (Some type') then Inl TypeError_required_properties
               else Inr \<lparr>j_type = type', j_text = text, j_length = length text,
                         j_markups = (if falsy (field p ''markups'') then JArray []
                                      else (case field p ''markups'' of Some ms \<Rightarrow> ms
                                            | None \<Rightarrow> JArray []))\<rparr>)
      | _ \<Rightarrow> Inl TypeError_required_properties)"
  unfolding fromJSON_def assms [rule_format]
  by (simp split: option.splits json.splits)

lemma falsy_None: "falsy None"
  by (simp add: falsy_def)

lemma fromJSON_raises:
  "(\<exists>e. fromJSON p = Inl e) \<longleftrightarrow> \<not> is_string (field p ''text'') \<or> falsy (field p ''type'')"
proof -
  consider (null) "p = JNull" "\<forall>n. field p n = None"
    | (other) "\<forall>n. property p n = Inr (field p n)"
    using property_cases [of p] by auto
  then show ?thesis
  proof cases
    case null
    then show ?thesis by (simp add: fromJSON_null is_string_def)
  next
    case other
    show ?thesis
      unfolding fromJSON_fields [OF other]
      by (simp add: is_string_def falsy_None split: option.splits json.splits)
  qed
qed

lemma fromJSON_result:
  assumes "fromJSON p = Inr r"
  shows "Some (JString (j_text r)) = field p ''text'' \<and>
         Some (j_type r) = field p ''type'' \<and>
         j_length r = length (j_text r) \<and>
         (if falsy (field p ''markups'') then j_markups r = JArray []
          else Some (j_markups r) = field p ''markups'')"
proof -
  consider (null) "p = JNull" "\<forall>n. field p n = None"
    | (other) "\<forall>n. property p n = Inr (field p n)"
    using property_cases [of p] by auto
  then show ?thesis
  proof cases
    case null
    with assms show ?thesis by (simp add: fromJSON_null)
  next
    case other
    show ?thesis
      using assms unfolding fromJSON_fields [OF other]
      by (auto simp: falsy_None split: option.splits json.splits if_splits)
  qed
qed


text \<open>
  C9, as the code has it. \<open>fromJSON\<close> raises an error exactly when the \<open>text\<close> of the
  parsed payload is not a string or its \<open>type\<close> is falsy: absent, \<open>null\<close>, \<open>false\<close>,
  zero or the empty string. When it returns, the text and the type of the result are
  the payload's, the length is that of the text, and the markups are the payload's
  unless they are absent or falsy, in which case they are the empty list.
\<close>

theorem fromJSON_contract:
  "((\<exists>e. fromJSON p = Inl e) \<longleftrightarrow> \<not> is_string (field p ''text'') \<or> falsy (field p ''type''))
   \<and> (\<forall>r. fromJSON p = Inr r \<longrightarrow>
          Some (JString (j_text r)) = field p ''text'' \<and>
          Some (j_type r) = field p ''type'' \<and>
          j_length r = length (j_text r) \<and>
          (if falsy (field p ''markups'') then j_markups r = JArray []
           else Some (j_markups r) = field p ''markups''))"
  using fromJSON_raises [of p] fromJSON_result [of p] by blast

theorem fromJSON_contract_witness:
  "fromJSON payload_p
     = Inr \<lparr>j_type = JString (ascii ''p''), j_text = ascii ''a'', j_length = 1, j_markups = JArray []\<rparr>
   \<and> field payload_p ''text'' = Some (JString (ascii ''a''))
   \<and> field payload_p ''type'' = Some (JString (ascii ''p''))
   \<and> falsy (field payload_p ''markups'')
   \<and> \<not> (\<exists>e. fromJSON payload_p = Inl e)"
proof -
  have e: "fromJSON payload_p
     = Inr \<lparr>j_type = JString (ascii ''p''), j_text = ascii ''a'', j_length = 1, j_markups = JArray []\<rparr>"
    by (simp add: fromJSON_def payload_p_def property_def falsy_def ascii_def)
  have f: "field payload_p ''markups'' = None"
    by (simp add: field_def payload_p_def property_def)
  from fromJSON_contract [of payload_p] e
  have "Some (JString (j_text \<lparr>j_type = JString (ascii ''p''), j_text = ascii ''a'', j_length = 1,
          j_markups = JArray []\<rparr>)) = field payload_p ''text''"
    and "Some (j_type \<lparr>j_type = JString (ascii ''p''), j_text = ascii ''a'', j_length = 1,
          j_markups = JArray []\<rparr>) = field payload_p ''type''"
    by blast+
  then show ?thesis using e f by (simp add: falsy_def)
qed

text \<open>
  C9, as stated, fails on the payload \<open>{"text": "a", "type": 0}\<close>: the text is a
  string and the type is neither missing nor the empty string, yet \<open>!result.type\<close>
  holds of zero and \<open>fromJSON\<close> raises.
\<close>

theorem fromJSON_type_zero_counterexample:
  "fromJSON payload_type_zero = Inl TypeError_required_properties
   \<and> is_string (field payload_type_zero ''text'')
   \<and> \<not> missing_or_empty (field payload_type_zero ''type'')
   \<and> \<not> ((\<exists>e. fromJSON payload_type_zero = Inl e) \<longleftrightarrow>
          \<not> is_string (field payload_type_zero ''text'') \<or>
          missing_or_empty (field payload_type_zero ''type''))"
  by (simp add: fromJSON_def payload_type_zero_def property_def field_def falsy_def
      is_string_def missing_or_empty_def)

section \<open>Properties of mergeAdjacent\<close>











section \<open>Splitting and rejoining\<close>


lemma equals_refl: "equals s s"
  by (simp add: equals_def equals_markup_def list_all2_same)

lemma mergeAdjacent_list_keep:
  "xs = [] \<or> \<not> (m_type (hd xs) = m_type m \<and> m_start (hd xs) \<le> m_end m) \<Longrightarrow>
   mergeAdjacent_list (m # xs) = m # mergeAdjacent_list xs"
  by (cases xs) auto

lemma pieces_props:
  assumes "a \<in> set (pieces k m)" "m_start m < m_end m"
  shows "m_type a = m_type m" "m_href a = m_href m" "m_start m \<le> m_start a"
    "m_start a < m_end a" "m_end a \<le> m_end m"
  using assms by (auto simp: pieces_def split: if_splits)

lemma pieces_hd:
  "pieces k m \<noteq> [] \<and> m_type (hd (pieces k m)) = m_type m \<and> m_start (hd (pieces k m)) = m_start m"
  by (simp add: pieces_def)

lemma mergeAdjacent_list_pieces:
  assumes "m_start m < m_end m"
    and "xs = [] \<or> \<not> (m_type (hd xs) = m_type m \<and> m_start (hd xs) \<le> m_end m)"
  shows "mergeAdjacent_list (pieces k m @ xs) = m # mergeAdjacent_list xs"
proof (cases "m_end m \<le> k \<or> k \<le> m_start m")
  case True
  then show ?thesis using assms(2) by (simp add: pieces_def mergeAdjacent_list_keep)
next
  case False
  have "mergeAdjacent_list (pieces k m @ xs) = mergeAdjacent_list (m # xs)"
    using False by (cases m) (auto simp: pieces_def split: option.splits)
  then show ?thesis using assms(2) by (simp add: mergeAdjacent_list_keep)
qed

lemma concat_pieces_hd:
  "ms \<noteq> [] \<Longrightarrow> concat (map (pieces k) ms) \<noteq> [] \<and>
     m_type (hd (concat (map (pieces k) ms))) = m_type (hd ms) \<and>
     m_start (hd (concat (map (pieces k) ms))) = m_start (hd ms)"
  using pieces_hd [of k "hd ms"] by (cases ms) simp_all

lemma mergeAdjacent_list_concat_pieces:
  assumes "\<forall>m\<in>set ms. m_start m < m_end m" and "separated ms"
  shows "mergeAdjacent_list (concat (map (pieces k) ms)) = ms"
  using assms
proof (induction ms)
  case Nil
  then show ?case by simp
next
  case (Cons m ms)
  let ?xs = "concat (map (pieces k) ms)"
  have IH: "mergeAdjacent_list ?xs = ms"
    using Cons by (simp add: separated_def)
  have "?xs = [] \<or> \<not> (m_type (hd ?xs) = m_type m \<and> m_start (hd ?xs) \<le> m_end m)"
  proof (cases ms)
    case Nil
    then show ?thesis by simp
  next
    case (Cons m' ms')
    then have "m_type m = m_type m' \<longrightarrow> m_end m < m_start m'"
      using Cons.prems(2) by (simp add: separated_def)
    moreover have "m_type (hd ?xs) = m_type m'" "m_start (hd ?xs) = m_start m'"
      using concat_pieces_hd [of ms k] Cons by simp_all
    ultimately show ?thesis by auto
  qed
  then have "mergeAdjacent_list (pieces k m @ ?xs) = m # mergeAdjacent_list ?xs"
    using Cons.prems(1) by (intro mergeAdjacent_list_pieces) simp_all
  with IH show ?case by simp
qed


lemma key_less_iff:
  "key a < key b \<longleftrightarrow>
     m_type a < m_type b \<or>
     (m_type a = m_type b \<and> (m_start a < m_start b \<or> (m_start a = m_start b \<and> m_end a < m_end b)))"
  by (auto simp: key_def)

lemma sorted_wrt_pieces: "m_start m < m_end m \<Longrightarrow> sorted_wrt (\<lambda>a b. key a < key b) (pieces k m)"
  by (auto simp: pieces_def key_less_iff)

lemma pieces_less:
  assumes "a \<in> set (pieces k m)" "b \<in> set (pieces k m')"
    and "m_start m < m_end m" "m_start m' < m_end m'"
    and "key m \<le> key m'" "m_type m = m_type m' \<longrightarrow> m_end m < m_start m'"
  shows "key a < key b"
proof -
  note A = pieces_props [OF assms(1,3)]
  note B = pieces_props [OF assms(2,4)]
  have "m_type m \<le> m_type m'" using assms(5) by (auto simp: key_le_iff)
  then show ?thesis
    using A B assms(6) unfolding key_less_iff by auto
qed

lemma sorted_wrt_concat_pieces:
  assumes "\<forall>m\<in>set ms. m_start m < m_end m" and "sorted (map key ms)" and "separated ms"
  shows "sorted_wrt (\<lambda>a b. key a < key b) (concat (map (pieces k) ms))"
  using assms
proof (induction ms)
  case Nil
  then show ?case by simp
next
  case (Cons m ms)
  have IH: "sorted_wrt (\<lambda>a b. key a < key b) (concat (map (pieces k) ms))"
    using Cons by (simp add: separated_def)
  have "key a < key b" if "a \<in> set (pieces k m)" "b \<in> set (concat (map (pieces k) ms))" for a b
  proof -
    from that(2) obtain m' where m': "m' \<in> set ms" "b \<in> set (pieces k m')" by auto
    show ?thesis
      using that(1) m'(2)
    proof (rule pieces_less)
      show "m_start m < m_end m" "m_start m' < m_end m'" using Cons.prems(1) m'(1) by simp_all
      show "key m \<le> key m'" using Cons.prems(2) m'(1) by simp
      show "m_type m = m_type m' \<longrightarrow> m_end m < m_start m'"
        using Cons.prems(3) m'(1) by (simp add: separated_def)
    qed
  qed
  with IH sorted_wrt_pieces [of m k] Cons.prems(1) show ?case
    by (simp add: sorted_wrt_append)
qed

lemma strict_sorted_key:
  assumes "sorted_wrt (\<lambda>a b. key a < key b) xs"
  shows "sorted (map key xs)" and "inj_on key (set xs)"
proof -
  have "sorted_wrt (<) (map key xs)"
    using assms by (simp add: sorted_wrt_map)
  then have "sorted (map key xs)" "distinct (map key xs)"
    by (simp_all add: strict_sorted_iff)
  then show "sorted (map key xs)" "inj_on key (set xs)"
    by (simp_all add: distinct_map)
qed


lemma piece_elements:
  assumes "valid_markup L m" "0 \<le> k" "k \<le> int L"
  shows "(if m_start m < k \<and> m_end m > 0
            then {#append_newMarkup 0 (substr_newMarkup 0 k m)#} else {#})
       + (if m_start m < int L \<and> m_end m > k
            then {#append_newMarkup k (substr_newMarkup k (int L) m)#} else {#})
       = mset (pieces k m)"
  using assms
  by (cases m)
     (auto simp: valid_markup_def pieces_def append_newMarkup_def substr_newMarkup_def)

lemma mset_pieces:
  assumes "\<forall>m\<in>set ms. valid_markup L m" "0 \<le> k" "k \<le> int L"
  shows "mset (map (append_newMarkup 0) (map (substr_newMarkup 0 k)
                 (filter (\<lambda>m. m_start m < k \<and> m_end m > 0) ms)))
       + mset (map (append_newMarkup k) (map (substr_newMarkup k (int L))
                 (filter (\<lambda>m. m_start m < int L \<and> m_end m > k) ms)))
       = mset (concat (map (pieces k) ms))"
  using assms(1)
proof (induction ms)
  case Nil
  then show ?case by simp
next
  case (Cons m ms)
  have "valid_markup L m" using Cons.prems by simp
  from piece_elements [OF this assms(2,3)] Cons show ?case
    by (simp add: add_mset_commute split: if_splits)
qed

lemma substr_left:
  assumes len: "s_length s = length (s_text s)" and valid: "valid_markups s"
    and k: "0 \<le> k" "k \<le> int (s_length s)"
  shows "s_type (substr s 0 (Some k)) = toLowerCase (s_type s) \<and>
         s_text (substr s 0 (Some k)) = take (nat k) (s_text s) \<and>
         s_length (substr s 0 (Some k)) = nat k \<and>
         mset (s_markups (substr s 0 (Some k)))
           = mset (map (substr_newMarkup 0 k)
                    (filter (\<lambda>m. m_start m < k \<and> m_end m > 0) (s_markups s)))"
proof (cases "k = 0")
  case True
  have "filter (\<lambda>m. m_start m < 0 \<and> m_end m > 0) (s_markups s) = []"
    using valid by (auto simp: valid_markups_def list_all_iff valid_markup_def filter_empty_conv)
  with True show ?thesis
    by (simp add: substr_empty new_Serialize_def)
next
  case False
  then have pos: "0 < k" "s_length s \<noteq> 0" using k by auto
  have r: "substr s 0 (Some k) =
     fold (\<lambda>markup acc. if m_start markup < 0 + k \<and> m_end markup > 0
                          then addMarkup acc (substr_newMarkup 0 (0 + k) markup) else acc)
       (s_markups s) (set_text (new_Serialize (s_type s)) (js_substr (s_text s) 0 k))"
    by (rule substr_unfold) (use pos k in \<open>simp_all add: resolveStart_nonneg\<close>)
  have t: "js_substr (s_text s) 0 k = take (nat k) (s_text s)"
    using pos k len by (simp add: js_substr_def Let_def min_def max_def)
  have l: "nat k \<le> length (s_text s)"
    using k len by linarith
  show ?thesis
    unfolding r
    using l
    by (simp add: fold_addMarkup_fields mset_fold_addMarkup set_text_def new_Serialize_def t min_def)
qed

lemma substr_right:
  assumes len: "s_length s = length (s_text s)" and valid: "valid_markups s"
    and k: "0 \<le> k" "k \<le> int (s_length s)"
  shows "s_text (substr s k None) = drop (nat k) (s_text s) \<and>
         mset (s_markups (substr s k None))
           = mset (map (substr_newMarkup k (int (s_length s)))
                    (filter (\<lambda>m. m_start m < int (s_length s) \<and> m_end m > k) (s_markups s)))"
proof (cases "s_length s = 0")
  case True
  have "filter (\<lambda>m. m_start m < int (s_length s) \<and> m_end m > k) (s_markups s) = []"
    using valid True by (auto simp: valid_markups_def list_all_iff valid_markup_def filter_empty_conv)
  with True len show ?thesis
    by (simp add: substr_empty new_Serialize_def)
next
  case False
  have r: "substr s k None =
     fold (\<lambda>markup acc. if m_start markup < k + (int (s_length s) - k) \<and> m_end markup > k
                          then addMarkup acc (substr_newMarkup k (k + (int (s_length s) - k)) markup)
                          else acc)
       (s_markups s) (set_text (new_Serialize (s_type s)) (js_substr (s_text s) k (int (s_length s) - k)))"
    by (rule substr_unfold) (use False k in \<open>simp_all add: resolveStart_nonneg\<close>)
  have "length (s_text s) - nat k = nat (int (length (s_text s)) - k)"
    using k len by linarith
  then have t: "js_substr (s_text s) k (int (s_length s) - k) = drop (nat k) (s_text s)"
    using k len by (simp add: js_substr_def Let_def min_def max_def)
  show ?thesis
    unfolding r
    by (simp add: fold_addMarkup_fields mset_fold_addMarkup set_text_def new_Serialize_def t)
qed


lemma append_Other:
  "append a (Other b) =
     mergeAdjacent
       (fold (\<lambda>markup acc. addMarkup acc (append_newMarkup (int (s_length a)) markup)) (s_markups b)
         (fold (\<lambda>markup acc. addMarkup acc (append_newMarkup 0 markup)) (s_markups a)
           (set_text (new_Serialize (s_type a)) (s_text a @ s_text b))))"
  by (simp add: append_def append_unmerged_def Let_def)

lemma fold_addMarkup_all:
  "s_type (fold (\<lambda>m acc. addMarkup acc (f m)) ms init) = s_type init"
  "s_text (fold (\<lambda>m acc. addMarkup acc (f m)) ms init) = s_text init"
  "s_length (fold (\<lambda>m acc. addMarkup acc (f m)) ms init) = s_length init"
  "mset (s_markups (fold (\<lambda>m acc. addMarkup acc (f m)) ms init))
     = mset (s_markups init) + mset (map f ms)"
  "sorted_markups (s_markups init) \<Longrightarrow>
     sorted_markups (s_markups (fold (\<lambda>m acc. addMarkup acc (f m)) ms init))"
  using fold_addMarkup_fields [where P = "\<lambda>_. True" and f = f and ms = ms and init = init]
    mset_fold_addMarkup [where P = "\<lambda>_. True" and f = f and ms = ms and init = init]
    fold_addMarkup_sorted [where P = "\<lambda>_. True" and f = f and ms = ms and init = init]
  by simp_all

lemma substr_append_markups:
  assumes low: "toLowerCase (s_type s) = s_type s"
    and len: "s_length s = length (s_text s)" and valid: "valid_markups s"
    and srt: "sorted_markups (s_markups s)" and sep: "separated (s_markups s)"
    and k: "0 \<le> k" "k \<le> int (s_length s)"
  shows "append (substr s 0 (Some k)) (Other (substr s k None)) = s"
proof -
  define a where "a = substr s 0 (Some k)"
  define b where "b = substr s k None"
  define X where "X =
       fold (\<lambda>markup acc. addMarkup acc (append_newMarkup (int (s_length a)) markup)) (s_markups b)
         (fold (\<lambda>markup acc. addMarkup acc (append_newMarkup 0 markup)) (s_markups a)
           (set_text (new_Serialize (s_type a)) (s_text a @ s_text b)))"
  define P where "P = concat (map (pieces k) (s_markups s))"
  note A = substr_left [OF len valid k, folded a_def]
  note B = substr_right [OF len valid k, folded b_def]
  have vm: "\<forall>m\<in>set (s_markups s). valid_markup (s_length s) m"
    using valid by (simp add: valid_markups_def list_all_iff)
  then have ne: "\<forall>m\<in>set (s_markups s). m_start m < m_end m"
    by (simp add: valid_markup_def)
  have la: "int (s_length a) = k" using A k by simp
  have ty: "s_type X = s_type s"
    unfolding X_def using A low by (simp add: fold_addMarkup_all set_text_def new_Serialize_def)
  have tx: "s_text X = s_text s"
    unfolding X_def using A B by (simp add: fold_addMarkup_all set_text_def)
  have lg: "s_length X = s_length s"
    unfolding X_def using A B len by (simp add: fold_addMarkup_all set_text_def)
  have "mset (s_markups X)
      = mset (map (append_newMarkup 0) (s_markups a)) + mset (map (append_newMarkup k) (s_markups b))"
    unfolding X_def la by (simp add: fold_addMarkup_all set_text_def new_Serialize_def)
  also have "\<dots> = mset (map (append_newMarkup 0) (map (substr_newMarkup 0 k)
                 (filter (\<lambda>m. m_start m < k \<and> m_end m > 0) (s_markups s))))
       + mset (map (append_newMarkup k) (map (substr_newMarkup k (int (s_length s)))
                 (filter (\<lambda>m. m_start m < int (s_length s) \<and> m_end m > k) (s_markups s))))"
    using A B by (simp only: mset_map)
  also have "\<dots> = mset P"
    unfolding P_def by (rule mset_pieces [OF vm k])
  finally have mset: "mset (s_markups X) = mset P" .
  have sX: "sorted (map key (s_markups X))"
    unfolding X_def sorted_markups_def [symmetric]
    by (intro fold_addMarkup_all(5)) (simp add: set_text_def new_Serialize_def sorted_markups_def)
  have "sorted_wrt (\<lambda>a b. key a < key b) P"
    unfolding P_def using ne srt sep
    by (intro sorted_wrt_concat_pieces) (simp_all add: sorted_markups_def)
  from strict_sorted_key [OF this] have sP: "sorted (map key P)" "inj_on key (set P)" .
  have "s_markups X = P"
    using sX sP(1) mset sP(2) by (rule sorted_key_unique)
  moreover have "mergeAdjacent_list P = s_markups s"
    unfolding P_def using ne sep by (rule mergeAdjacent_list_concat_pieces)
  ultimately have ms: "s_markups (mergeAdjacent X) = s_markups s"
    by (simp add: mergeAdjacent_def)
  have "mergeAdjacent X = s"
    using ty tx lg ms by (intro serialization.equality) (simp_all add: mergeAdjacent_def)
  then show ?thesis
    unfolding append_Other a_def [symmetric] b_def [symmetric] X_def [symmetric] .
qed


text \<open>
  C3, as the code has it. Let the type of a serialization be in lower case, as the
  constructor stores it, its length be that of its text, its markups be non-empty
  ranges within the text, sorted by type, start and end, and no two markups of one
  type touch or overlap. Then for every \<open>k\<close> from 0 to the length,
  \<open>s.substr(0, k).append(s.substr(k)).equals(s)\<close> is true.
\<close>

theorem substr_append_round_trip:
  assumes "toLowerCase (s_type s) = s_type s"
    and "s_length s = length (s_text s)" and "valid_markups s"
    and "sorted_markups (s_markups s)" and "separated (s_markups s)"
    and "0 \<le> k" and "k \<le> int (s_length s)"
  shows "equals (append (substr s 0 (Some k)) (Other (substr s k None))) s"
  unfolding substr_append_markups [OF assms] by (rule equals_refl)


theorem substr_append_round_trip_witness:
  "toLowerCase (s_type digits) = s_type digits \<and>
   s_length digits = length (s_text digits) \<and> valid_markups digits \<and>
   sorted_markups (s_markups digits) \<and> separated (s_markups digits) \<and>
   (0::int) \<le> 3 \<and> 3 \<le> int (s_length digits) \<and>
   equals (append (substr digits 0 (Some 3)) (Other (substr digits 3 None))) digits"
proof -
  have h1: "s_length digits = length (s_text digits)"
    by (simp add: digits_def ascii_def)
  have h2: "valid_markups digits"
    by (simp add: digits_def valid_markups_def valid_markup_def markup_of_def)
  have h3: "sorted_markups (s_markups digits)"
    by (simp add: digits_def sorted_markups_def key_def markup_of_def)
  have h4: "separated (s_markups digits)"
    by (simp add: digits_def separated_def markup_of_def)
  have h5: "(0::int) \<le> 3" by simp
  have h6: "3 \<le> int (s_length digits)" by (simp add: digits_def)
  have h0: "toLowerCase (s_type digits) = s_type digits"
    by (simp add: digits_def toLowerCase_def)
  from h0 h1 h2 h3 h4 h5 h6 substr_append_round_trip [OF h0 h1 h2 h3 h4 h5 h6] show ?thesis
    by blast
qed

text \<open>
  C3, as stated, fails on the text "abcd" with the markups \<open>{1,0,2}\<close> and \<open>{1,2,4}\<close>,
  which satisfy every invariant of the data model: split at 2 and rejoined, the two
  are merged into \<open>{1,0,4}\<close>, and \<open>equals\<close> is false.
\<close>

theorem substr_append_round_trip_counterexample:
  "toLowerCase (s_type adjacent_bold) = s_type adjacent_bold
   \<and> s_length adjacent_bold = length (s_text adjacent_bold)
   \<and> valid_markups adjacent_bold
   \<and> sorted_markups (s_markups adjacent_bold)
   \<and> (0::int) \<le> 2 \<and> 2 \<le> int (s_length adjacent_bold)
   \<and> s_markups (append (substr adjacent_bold 0 (Some 2)) (Other (substr adjacent_bold 2 None)))
        = [markup_of 1 0 4]
   \<and> \<not> equals (append (substr adjacent_bold 0 (Some 2)) (Other (substr adjacent_bold 2 None)))
          adjacent_bold"
  by code_simp

text \<open>
  The failure does not depend on how the merge is done. Split at 2, the serialization
  above and the one with the single markup \<open>{1,0,4}\<close> reach the same state before the
  merge, so no function of that state returns both.
\<close>

lemma splits_agree_before_merge:
  "append_unmerged (substr adjacent_bold 0 (Some 2)) (substr adjacent_bold 2 None)
     = \<lparr>s_type = ''p'', s_text = ascii ''abcd'', s_length = 4,
        s_markups = [markup_of 1 0 2, markup_of 1 2 4]\<rparr>"
  "append_unmerged (substr whole_bold 0 (Some 2)) (substr whole_bold 2 None)
     = \<lparr>s_type = ''p'', s_text = ascii ''abcd'', s_length = 4,
        s_markups = [markup_of 1 0 2, markup_of 1 2 4]\<rparr>"
  by code_simp+

lemma round_trip_fails_for_any_merge:
  "\<not> (equals ((append_unmerged (substr adjacent_bold 0 (Some 2)) (substr adjacent_bold 2 None))
                \<lparr>s_markups := f (s_markups
                    (append_unmerged (substr adjacent_bold 0 (Some 2)) (substr adjacent_bold 2 None)))\<rparr>)
              adjacent_bold
      \<and> equals ((append_unmerged (substr whole_bold 0 (Some 2)) (substr whole_bold 2 None))
                \<lparr>s_markups := f (s_markups
                    (append_unmerged (substr whole_bold 0 (Some 2)) (substr whole_bold 2 None)))\<rparr>)
              whole_bold)"
  unfolding splits_agree_before_merge
  by (auto simp: equals_def adjacent_bold_def whole_bold_def)

end
